theory Spec2Isabelle
  imports Complex_Main
begin

section \<open>Python values used by \<open>blast_project.py\<close>\<close>

text \<open>
  Strings are lists of characters; a character stands for a code point below 256.
  The only exception the script's own code can raise is the \<open>IndexError\<close> of
  \<open>header.split()[0]\<close> on a header without any token.
\<close>

datatype py_error = IndexError

abbreviation NL :: char where
  "NL \<equiv> CHR ''\<newline>''"

text \<open>\<open>str.isspace\<close> on one character (code points below 256).\<close>

definition isspace :: "char \<Rightarrow> bool" where
  "isspace c \<longleftrightarrow>
     c = CHR 0x09 \<or> c = NL \<or> c = CHR 0x0B \<or> c = CHR 0x0C \<or> c = CHR 0x0D \<or>
     c = CHR 0x1C \<or> c = CHR 0x1D \<or> c = CHR 0x1E \<or> c = CHR 0x1F \<or>
     c = CHR '' '' \<or> c = CHR 0x85 \<or> c = CHR 0xA0"

text \<open>
  \<open>s.split()\<close> without arguments: the maximal runs of non-whitespace characters,
  in order; \<open>cur\<close> is the token being read.
\<close>

fun split_from :: "string \<Rightarrow> string \<Rightarrow> string list" where
  "split_from cur [] = (if cur = [] then [] else [cur])"
| "split_from cur (c # cs) =
     (if isspace c
      then (if cur = [] then split_from [] cs else cur # split_from [] cs)
      else split_from (cur @ [c]) cs)"

definition py_split :: "string \<Rightarrow> string list" where
  "py_split s = split_from [] s"

text \<open>\<open>sep.join(xs)\<close>.\<close>

fun join :: "string \<Rightarrow> string list \<Rightarrow> string" where
  "join sep [] = []"
| "join sep [x] = x"
| "join sep (x # y # ys) = x @ sep @ join sep (y # ys)"

text \<open>\<open>s[i:j]\<close> for \<open>0 \<le> i \<le> j\<close>, and \<open>range(start, stop, step)\<close> for a positive step.\<close>

definition slice :: "'a list \<Rightarrow> nat \<Rightarrow> nat \<Rightarrow> 'a list" where
  "slice s i j = take (j - i) (drop i s)"

definition range_step :: "nat \<Rightarrow> nat \<Rightarrow> nat \<Rightarrow> nat list" where
  "range_step start stop step =
     map (\<lambda>k. start + k * step) [0..<(stop - start + step - 1) div step]"

text \<open>\<open>line.startswith(">")\<close> and \<open>line.rstrip("\n")\<close>.\<close>

definition startswith_gt :: "string \<Rightarrow> bool" where
  "startswith_gt line = (case line of [] \<Rightarrow> False | c # _ \<Rightarrow> c = CHR ''>'')"

definition rstrip_nl :: "string \<Rightarrow> string" where
  "rstrip_nl line = rev (dropWhile (\<lambda>c. c = NL) (rev line))"

text \<open>
  Iterating over an open text file: the content is cut after every newline, each
  line keeps its newline, and a last line without newline is still a line. The
  content is the text as Python hands it out, with every line ending already
  turned into one newline character.
\<close>

fun lines_from :: "string \<Rightarrow> string \<Rightarrow> string list" where
  "lines_from cur [] = (if cur = [] then [] else [cur])"
| "lines_from cur (c # cs) =
     (if c = NL then (cur @ [c]) # lines_from [] cs else lines_from (cur @ [c]) cs)"

definition file_lines :: "string \<Rightarrow> string list" where
  "file_lines content = lines_from [] content"

section \<open>FASTA sequence extraction\<close>

text \<open>
  \<open>fasta_iterator\<close>: the loop over the lines of the file, with the generator's two
  local variables \<open>header\<close> and \<open>seq_lines\<close> as arguments; the result is the list of
  the pairs it yields, in order.
\<close>

definition emit :: "string option \<Rightarrow> string list \<Rightarrow> (string \<times> string) list" where
  "emit header seq_lines =
     (case header of None \<Rightarrow> [] | Some h \<Rightarrow> [(h, concat seq_lines)])"

fun fasta_loop ::
  "string option \<Rightarrow> string list \<Rightarrow> string list \<Rightarrow> (string \<times> string) list" where
  "fasta_loop header seq_lines [] = emit header seq_lines"
| "fasta_loop header seq_lines (raw # rest) =
     (let line = rstrip_nl raw in
      if startswith_gt line
      then emit header seq_lines @ fasta_loop (Some (drop 1 line)) [] rest
      else fasta_loop header (seq_lines @ [line]) rest)"

definition fasta_iterator :: "string \<Rightarrow> (string \<times> string) list" where
  "fasta_iterator content = fasta_loop None [] (file_lines content)"

text \<open>
  The body of the loop of \<open>extract_sequences\<close> for a wanted record: the strings
  handed to \<open>out.write\<close>, the header line and then one line per start index of
  \<open>range(0, len(seq), 60)\<close>.
\<close>

definition wrap60 :: "string \<Rightarrow> string list" where
  "wrap60 seq = map (\<lambda>i. slice seq i (i + 60)) (range_step 0 (length seq) 60)"

definition write_record :: "string \<Rightarrow> string \<Rightarrow> string list" where
  "write_record header seq =
     (''>'' @ header @ [NL]) # map (\<lambda>chunk. chunk @ [NL]) (wrap60 seq)"

text \<open>
  \<open>header.split()[0]\<close>: the first token, or \<open>IndexError\<close> when the header has none.
\<close>

definition primary_id :: "string \<Rightarrow> py_error + string" where
  "primary_id header =
     (case py_split header of [] \<Rightarrow> Inl IndexError | tok # _ \<Rightarrow> Inr tok)"

text \<open>
  \<open>extract_sequences\<close>: \<open>out\<close> is what has been written to the output file so far,
  one entry per record written (the strings written for it). The result is the
  final state of the file and the exception that ended the loop, if any.
\<close>

fun extract_loop ::
  "string set \<Rightarrow> (string \<times> string) list \<Rightarrow> string list list \<Rightarrow>
     string list list \<times> py_error option" where
  "extract_loop wanted_ids [] out = (out, None)"
| "extract_loop wanted_ids ((header, seq) # rest) out =
     (case primary_id header of
        Inl e \<Rightarrow> (out, Some e)
      | Inr pid \<Rightarrow>
          if pid \<in> wanted_ids
          then extract_loop wanted_ids rest (out @ [write_record header seq])
          else extract_loop wanted_ids rest out)"

definition extract_sequences ::
  "string \<Rightarrow> string set \<Rightarrow> string list list \<times> py_error option" where
  "extract_sequences fasta wanted_ids = extract_loop wanted_ids (fasta_iterator fasta) []"

text \<open>The text of the output file: everything written, in order.\<close>

definition file_text :: "string list list \<Rightarrow> string" where
  "file_text out = concat (concat out)"

text \<open>
  Reading the result back: the records of the output file are what the script's
  own parser yields on the text of the file. \<open>occurrences_in\<close> counts the records
  with a given primary identifier in a list of records, \<open>occurrences_out\<close> counts
  them among the records of the output file. A sequence wraps cleanly when none of
  the lines it is wrapped into starts with the header marker.
\<close>

definition output_records :: "string list list \<Rightarrow> (string \<times> string) list" where
  "output_records out = fasta_iterator (file_text out)"

definition occurrences_in :: "string \<Rightarrow> (string \<times> string) list \<Rightarrow> nat" where
  "occurrences_in x recs = length (filter (\<lambda>r. primary_id (fst r) = Inr x) recs)"

definition occurrences_out :: "string \<Rightarrow> string list list \<Rightarrow> nat" where
  "occurrences_out x out = occurrences_in x (output_records out)"

definition wraps_cleanly :: "string \<Rightarrow> bool" where
  "wraps_cleanly seq = (\<forall>l\<in>set (wrap60 seq). \<not> startswith_gt l)"

text \<open>The header line and the sequence lines that are written for a record.\<close>

definition record_block :: "string \<times> string \<Rightarrow> string \<times> string list" where
  "record_block r = (''>'' @ fst r @ [NL], map (\<lambda>chunk. chunk @ [NL]) (wrap60 (snd r)))"

text \<open>A record is wanted when its primary identifier exists and is in the set.\<close>

definition wanted :: "string set \<Rightarrow> string \<times> string \<Rightarrow> bool" where
  "wanted wanted_ids r =
     (case primary_id (fst r) of Inl _ \<Rightarrow> False | Inr pid \<Rightarrow> pid \<in> wanted_ids)"

text \<open>A record can be read when its header has a character that is no whitespace.\<close>

definition readable :: "string \<times> string \<Rightarrow> bool" where
  "readable r = (\<exists>c\<in>set (fst r). \<not> isspace c)"

text \<open>
  The shape of a sequence file, for stating what the parser yields: a line of the
  file is a header line when, without its newline, it starts with the marker. A
  block is a header line with the lines that follow it up to the next header line;
  \<open>block_record\<close> is the record the block stands for. A file is some lines without
  marker followed by blocks.
\<close>

definition is_header :: "string \<Rightarrow> bool" where
  "is_header raw = startswith_gt (rstrip_nl raw)"

definition block_lines :: "string \<times> string list \<Rightarrow> string list" where
  "block_lines b = fst b # snd b"

definition block_record :: "string \<times> string list \<Rightarrow> string \<times> string" where
  "block_record b = (drop 1 (rstrip_nl (fst b)), concat (map rstrip_nl (snd b)))"

definition well_formed :: "string list \<Rightarrow> (string \<times> string list) list \<Rightarrow> bool" where
  "well_formed pre blocks \<longleftrightarrow>
     (\<forall>l\<in>set pre. \<not> is_header l) \<and>
     (\<forall>b\<in>set blocks. is_header (fst b) \<and> (\<forall>l\<in>set (snd b). \<not> is_header l))"

text \<open>
  The line structure of a wrapped sequence: every line but the last has 60
  characters, and the last has between 1 and 60.
\<close>

definition wrapped60 :: "string list \<Rightarrow> bool" where
  "wrapped60 ls \<longleftrightarrow>
     (\<forall>l\<in>set (butlast ls). length l = 60) \<and>
     (ls \<noteq> [] \<longrightarrow> 0 < length (last ls) \<and> length (last ls) \<le> 60)"

section \<open>The alignment table\<close>

text \<open>
  A float is the real number it stands for, an infinity, or NaN, the marker pandas
  uses for a missing value. Every comparison with NaN is false.
\<close>

datatype pyfloat = NaN | NegInf | Fin real | PosInf

fun float_le :: "pyfloat \<Rightarrow> pyfloat \<Rightarrow> bool" where
  "float_le NaN y = False"
| "float_le NegInf y = (y \<noteq> NaN)"
| "float_le (Fin a) y = (case y of Fin b \<Rightarrow> a \<le> b | PosInf \<Rightarrow> True | _ \<Rightarrow> False)"
| "float_le PosInf y = (y = PosInf)"

definition float_ge :: "pyfloat \<Rightarrow> pyfloat \<Rightarrow> bool" where
  "float_ge x y = float_le y x"

definition IDENTITY_THRESHOLD :: pyfloat where
  "IDENTITY_THRESHOLD = Fin 35"

definition EVALUE_THRESHOLD :: pyfloat where
  "EVALUE_THRESHOLD = Fin (1 / 10 ^ 7)"

text \<open>
  A cell as \<open>read_csv\<close> leaves it: a number where the whole column parsed as
  numbers, the text of the field otherwise. A row has the twelve columns of
  \<open>BLAST_COLUMNS\<close>; \<open>subject_ID\<close> and \<open>query_ID\<close> are text (\<open>"\\n".join\<close>
  accepts nothing else), \<open>identity\<close> stands for the column \<open>%identity\<close>, and the
  type parameter is the type of the two columns that \<open>load_blast_table\<close> coerces.
\<close>

datatype cell = Num pyfloat | Str string

record 'n blast_row =
  query_ID :: string
  subject_ID :: string
  identity :: 'n
  alignment_length :: cell
  mismatches :: cell
  gap_opens :: cell
  q_start :: cell
  q_end :: cell
  s_start :: cell
  s_end :: cell
  evalue :: 'n
  bit_score :: cell

text \<open>
  \<open>pd.to_numeric(column, errors="coerce")\<close> on one cell: a number stays, a text
  is parsed, and a text that is no number becomes NaN. The parser of pandas is the
  parameter \<open>parse\<close>.
\<close>

definition to_numeric :: "(string \<Rightarrow> pyfloat option) \<Rightarrow> cell \<Rightarrow> pyfloat" where
  "to_numeric parse c =
     (case c of Num x \<Rightarrow> x
      | Str s \<Rightarrow> (case parse s of Some x \<Rightarrow> x | None \<Rightarrow> NaN))"

definition coerce_row :: "(string \<Rightarrow> pyfloat option) \<Rightarrow> cell blast_row \<Rightarrow> pyfloat blast_row" where
  "coerce_row parse r =
     \<lparr>query_ID = query_ID r, subject_ID = subject_ID r,
      identity = to_numeric parse (identity r),
      alignment_length = alignment_length r, mismatches = mismatches r,
      gap_opens = gap_opens r, q_start = q_start r, q_end = q_end r,
      s_start = s_start r, s_end = s_end r,
      evalue = to_numeric parse (evalue r), bit_score = bit_score r\<rparr>"

text \<open>
  \<open>load_blast_table\<close> after \<open>read_csv\<close> has returned the table \<open>df\<close>: the two
  coercions of lines 52 and 53.
\<close>

definition load_blast_table ::
  "(string \<Rightarrow> pyfloat option) \<Rightarrow> cell blast_row list \<Rightarrow> pyfloat blast_row list" where
  "load_blast_table parse df = map (coerce_row parse) df"

text \<open>\<open>Series.unique()\<close>: the distinct values in order of first appearance.\<close>

fun unique_from :: "'a list \<Rightarrow> 'a list \<Rightarrow> 'a list" where
  "unique_from seen [] = []"
| "unique_from seen (x # xs) =
     (if x \<in> set seen then unique_from seen xs else x # unique_from (x # seen) xs)"

definition unique :: "'a list \<Rightarrow> 'a list" where
  "unique xs = unique_from [] xs"

text \<open>The files of a run: names with their content; an image is not looked into.\<close>

datatype artifact = Text string | Png

definition list1 :: "pyfloat blast_row list \<Rightarrow> string list" where
  "list1 df = unique (map subject_ID (filter (\<lambda>r. float_ge (identity r) IDENTITY_THRESHOLD) df))"

definition list2 :: "pyfloat blast_row list \<Rightarrow> string list" where
  "list2 df = unique (map subject_ID (filter (\<lambda>r. float_le (evalue r) EVALUE_THRESHOLD) df))"

definition make_lists ::
  "pyfloat blast_row list \<Rightarrow> (string \<times> artifact) list \<times> string set \<times> string set" where
  "make_lists df =
     ([(''list1_identity_ge35.txt'', Text (join [NL] (list1 df) @ [NL])),
       (''list2_evalue_le1e-7.txt'', Text (join [NL] (list2 df) @ [NL]))],
      set (list1 df), set (list2 df))"

section \<open>Comparison and the main program\<close>

text \<open>What the program prints, one value per \<open>print\<close> call.\<close>

datatype message =
    ComparisonHeader
  | OnlyA nat
  | OnlyB nat
  | Both nat
  | MoreA
  | MoreB
  | SameNumber
  | NoSharedHits
  | HeatmapSaved string
  | FastaWritten string

definition compare_lists :: "string set \<Rightarrow> string set \<Rightarrow> message list" where
  "compare_lists l1 l2 =
     (let common = l1 \<inter> l2; only_a = l1 - l2; only_b = l2 - l1 in
      [ComparisonHeader, OnlyA (card only_a), OnlyB (card only_b), Both (card common),
       if card l1 > card l2 then MoreA
       else if card l1 < card l2 then MoreB
       else SameNumber])"

text \<open>
  A run of \<open>main\<close> ends with an exit status or with an exception that nobody
  catches. \<open>sys.exit()\<close> without argument is exit status 0, as is returning from
  \<open>main\<close>. The arguments are the table that \<open>read_csv\<close> returned and the content
  of the sequence file.
\<close>

datatype outcome = Exit int | Raised py_error

record run =
  files :: "(string \<times> artifact) list"
  stdout :: "message list"
  outcome :: outcome

definition main :: "(string \<Rightarrow> pyfloat option) \<Rightarrow> cell blast_row list \<Rightarrow> string \<Rightarrow> run" where
  "main parse table fasta =
     (let blast_df = load_blast_table parse table;
          (list_files, l1, l2) = make_lists blast_df;
          printed = compare_lists l1 l2;
          shared = l1 \<inter> l2
      in if shared = {}
         then \<lparr>files = list_files, stdout = printed @ [NoSharedHits], outcome = Exit 0\<rparr>
         else
           let heatmap_png = ''shared_hits_heatmap.png'';
               files2 = list_files @ [(heatmap_png, Png)];
               printed2 = printed @ [HeatmapSaved heatmap_png];
               fasta_out = ''shared_hits_sequences.fasta'';
               (out, err) = extract_sequences fasta shared;
               files3 = files2 @ [(fasta_out, Text (file_text out))]
           in case err of
                Some e \<Rightarrow> \<lparr>files = files3, stdout = printed2, outcome = Raised e\<rparr>
              | None \<Rightarrow>
                  \<lparr>files = files3, stdout = printed2 @ [FastaWritten fasta_out],
                   outcome = Exit 0\<rparr>)"

text \<open>A table for trying the functions: five rows, two of them with missing values.\<close>

definition example_row :: "string \<Rightarrow> string \<Rightarrow> cell \<Rightarrow> cell \<Rightarrow> cell blast_row" where
  "example_row q s i e =
     \<lparr>query_ID = q, subject_ID = s, identity = i, alignment_length = Num (Fin 100),
      mismatches = Num (Fin 0), gap_opens = Num (Fin 0), q_start = Num (Fin 1),
      q_end = Num (Fin 100), s_start = Num (Fin 1), s_end = Num (Fin 100),
      evalue = e, bit_score = Num (Fin 50)\<rparr>"

definition example_table :: "cell blast_row list" where
  "example_table =
     [example_row ''Q1'' ''S1'' (Num (Fin 40)) (Num (Fin (1 / 10 ^ 9))),
      example_row ''Q2'' ''S2'' (Num (Fin 30)) (Num (Fin (1 / 10 ^ 9))),
      example_row ''Q3'' ''S3'' (Num (Fin 40)) (Num (Fin (1 / 10 ^ 5))),
      example_row ''Q4'' ''S4'' (Str ''n/a'') (Str ''n/a''),
      example_row ''Q5'' ''S1'' (Num (Fin 90)) (Num NaN)]"

section \<open>Properties of the sequence extraction\<close>

subsection \<open>Splitting at whitespace\<close>

lemma split_from_Nil_iff: "split_from cur s = [] \<longleftrightarrow> cur = [] \<and> (\<forall>c\<in>set s. isspace c)"
  by (induction s arbitrary: cur) auto

lemma py_split_Nil_iff: "py_split s = [] \<longleftrightarrow> (\<forall>c\<in>set s. isspace c)"
  by (simp add: py_split_def split_from_Nil_iff)

lemma split_from_snoc_NL: "split_from cur (s @ [NL]) = split_from cur s"
  by (induction s arbitrary: cur) (auto simp: isspace_def)

lemma primary_id_snoc_NL: "primary_id (h @ [NL]) = primary_id h"
  by (simp add: primary_id_def py_split_def split_from_snoc_NL)

lemma primary_id_Inl_iff: "(\<exists>e. primary_id h = Inl e) \<longleftrightarrow> (\<forall>c\<in>set h. isspace c)"
  by (auto simp: primary_id_def py_split_Nil_iff[symmetric] split: list.splits)

subsection \<open>The extraction loop\<close>


lemma readable_primary: "readable (h, s) \<longleftrightarrow> (\<exists>p. primary_id h = Inr p)"
  using primary_id_Inl_iff[of h] by (cases "primary_id h") (auto simp: readable_def)

lemma extract_loop_char:
  "extract_loop w recs out =
     (out @ map (\<lambda>(h, s). write_record h s) (filter (wanted w) (takeWhile readable recs)),
      if \<forall>r\<in>set recs. readable r then None else Some IndexError)"
proof (induction recs arbitrary: out)
  case Nil
  show ?case by simp
next
  case (Cons r recs)
  obtain h s where r: "r = (h, s)" by (cases r)
  show ?case
  proof (cases "primary_id h")
    case (Inl e)
    then have "\<not> readable (h, s)" by (simp add: readable_primary)
    moreover have "e = IndexError" by (cases e)
    ultimately show ?thesis using Inl by (simp add: r)
  next
    case (Inr p)
    then have "readable (h, s)" by (auto simp add: readable_primary)
    then show ?thesis using Inr Cons.IH by (simp add: r wanted_def)
  qed
qed

subsection \<open>The parser\<close>

lemma fasta_loop_body:
  "\<forall>l\<in>set body. \<not> is_header l \<Longrightarrow>
     fasta_loop hdr sl (body @ rest) = fasta_loop hdr (sl @ map rstrip_nl body) rest"
  by (induction body arbitrary: sl) (auto simp: is_header_def Let_def)




lemma fasta_loop_blocks:
  "well_formed pre blocks \<Longrightarrow>
     fasta_loop hdr sl (pre @ concat (map block_lines blocks)) =
       emit hdr (sl @ map rstrip_nl pre) @ map block_record blocks"
proof (induction blocks arbitrary: hdr sl pre)
  case Nil
  then show ?case using fasta_loop_body[of pre hdr sl "[]"] by (simp add: well_formed_def)
next
  case (Cons b blocks)
  obtain hl body where b: "b = (hl, body)" by (cases b)
  from Cons.prems have pre: "\<forall>l\<in>set pre. \<not> is_header l" and hl: "is_header hl"
    and wf: "well_formed body blocks"
    by (auto simp: well_formed_def b)
  have "fasta_loop hdr sl (pre @ concat (map block_lines (b # blocks))) =
        fasta_loop hdr (sl @ map rstrip_nl pre) (hl # (body @ concat (map block_lines blocks)))"
    using fasta_loop_body[OF pre] by (simp add: b block_lines_def)
  also have "\<dots> = emit hdr (sl @ map rstrip_nl pre) @
        fasta_loop (Some (drop 1 (rstrip_nl hl))) [] (body @ concat (map block_lines blocks))"
    using hl by (simp add: is_header_def Let_def)
  also have "fasta_loop (Some (drop 1 (rstrip_nl hl))) [] (body @ concat (map block_lines blocks)) =
        block_record b # map block_record blocks"
    using Cons.IH[OF wf] by (simp add: emit_def block_record_def b)
  finally show ?case by simp
qed

lemma decompose_lines:
  "\<exists>pre blocks. ls = pre @ concat (map block_lines blocks) \<and> well_formed pre blocks"
proof (induction ls)
  case Nil
  have "[] = [] @ concat (map block_lines []) \<and> well_formed [] []"
    by (simp add: well_formed_def)
  then show ?case by blast
next
  case (Cons l ls)
  then obtain pre blocks where d: "ls = pre @ concat (map block_lines blocks)"
    and wf: "well_formed pre blocks" by blast
  show ?case
  proof (cases "is_header l")
    case True
    have "l # ls = [] @ concat (map block_lines ((l, pre) # blocks)) \<and>
          well_formed [] ((l, pre) # blocks)"
      using d wf True by (simp add: well_formed_def block_lines_def)
    then show ?thesis by blast
  next
    case False
    have "l # ls = (l # pre) @ concat (map block_lines blocks) \<and> well_formed (l # pre) blocks"
      using d wf False by (simp add: well_formed_def)
    then show ?thesis by blast
  qed
qed

lemma length_fasta_loop:
  "length (fasta_loop hdr sl ls) = (if hdr = None then 0 else 1) + length (filter is_header ls)"
  by (induction ls arbitrary: hdr sl) (auto simp: is_header_def Let_def emit_def split: option.splits)


subsection \<open>Wrapping at 60 characters\<close>

lemma ceil60_le: "(n::nat) \<le> ((n + 59) div 60) * 60"
proof -
  have "n + 59 < ((n + 59) div 60) * 60 + 60"
    using div_mult_mod_eq[of "n + 59" 60] mod_less_divisor[of 60 "n + 59"] by linarith
  then show ?thesis by linarith
qed

lemma ceil60_Suc: "0 < (n::nat) \<Longrightarrow> (n + 59) div 60 = Suc ((n - 60 + 59) div 60)"
proof (cases "60 \<le> n")
  case True
  then obtain k where "n = 60 + k" using le_Suc_ex by blast
  then show ?thesis by simp
next
  case False
  assume "0 < n"
  with False have "(n + 59) div 60 = 1" by (simp add: div_nat_eqI)
  moreover from False have "n - 60 = 0" by simp
  ultimately show ?thesis by simp
qed

lemma ceil60_inner: "Suc k < ((n::nat) + 59) div 60 \<Longrightarrow> 60 \<le> n - k * 60"
proof -
  assume "Suc k < (n + 59) div 60"
  then have "Suc (Suc k) \<le> (n + 59) div 60" by simp
  then have "Suc (Suc k) * 60 \<le> n + 59" by (simp add: less_eq_div_iff_mult_less_eq)
  then show ?thesis by simp
qed

lemma ceil60_last:
  fixes n :: nat
  assumes "0 < (n + 59) div 60"
  shows "0 < n - ((n + 59) div 60 - 1) * 60 \<and> n - ((n + 59) div 60 - 1) * 60 \<le> 60"
proof -
  let ?m = "(n + 59) div 60"
  obtain j where j: "?m = Suc j" using assms by (cases ?m) auto
  have "?m * 60 \<le> n + 59" by simp
  then have lo: "j * 60 < n" using j by simp
  have "n \<le> ?m * 60" by (rule ceil60_le)
  then have hi: "n \<le> j * 60 + 60" using j by simp
  from lo hi show ?thesis using j by simp
qed

lemma ceil60_exact: "(60 * k + 59) div 60 = (k::nat)"
  by simp

lemma ceil60_exact_inner: "i < k \<Longrightarrow> 60 \<le> 60 * k - i * 60" for i k :: nat
proof -
  assume "i < k"
  then obtain d where "k = Suc (i + d)" using less_imp_Suc_add by blast
  then show ?thesis by simp
qed


lemma chunks_take: "concat (map (\<lambda>k. take n (drop (k * n) s)) [0..<m]) = take (m * n) s"
proof (induction m)
  case 0 show ?case by simp
next
  case (Suc m)
  have "take (m * n) s @ take n (drop (m * n) s) = take (m * n + n) s"
    by (simp add: take_add)
  with Suc show ?case by (simp add: add.commute)
qed

lemma wrap60_alt: "wrap60 s = map (\<lambda>k. take 60 (drop (k * 60) s)) [0..<(length s + 59) div 60]"
proof -
  have "(59 + length s) div 60 = (length s + 59) div 60" by (simp add: add.commute)
  then show ?thesis by (simp add: wrap60_def slice_def range_step_def comp_def)
qed

lemma concat_wrap60: "concat (wrap60 s) = s"
  using ceil60_le[of "length s"] by (simp add: wrap60_alt chunks_take)

lemma length_wrap60: "length (wrap60 s) = (length s + 59) div 60"
  by (simp add: wrap60_alt)

lemma nth_wrap60_len:
  assumes "k < length (wrap60 s)"
  shows "length (wrap60 s ! k) = min 60 (length s - k * 60)"
  using assms by (simp add: wrap60_alt)

lemma wrap60_rec: "wrap60 s = (if s = [] then [] else take 60 s # wrap60 (drop 60 s))"
proof (cases "s = []")
  case True
  then show ?thesis by (simp add: wrap60_alt)
next
  case False
  let ?f = "\<lambda>k. take 60 (drop (k * 60) s)"
  let ?m = "(length s - 60 + 59) div 60"
  from False have "0 < length s" by simp
  then have m: "(length s + 59) div 60 = Suc ?m" by (rule ceil60_Suc)
  have "wrap60 s = map ?f [0..<Suc ?m]"
    by (simp only: wrap60_alt m)
  also have "\<dots> = ?f 0 # map (\<lambda>k. ?f (Suc k)) [0..<?m]"
    by (rule map_upt_Suc)
  also have "?f 0 = take 60 s" by simp
  also have "map (\<lambda>k. ?f (Suc k)) [0..<?m] =
             map (\<lambda>k. take 60 (drop (k * 60) (drop 60 s))) [0..<?m]"
    by (simp add: add.commute)
  also have "\<dots> = wrap60 (drop 60 s)"
    by (simp only: wrap60_alt length_drop)
  finally show ?thesis using False by simp
qed

lemma wrapped60_wrap60: "wrapped60 (wrap60 s)"
proof -
  let ?m = "(length s + 59) div 60"
  have len: "length (wrap60 s) = ?m" by (rule length_wrap60)
  have full: "length l = 60" if "l \<in> set (butlast (wrap60 s))" for l
  proof -
    from that obtain k where k: "k < length (butlast (wrap60 s))" and l: "l = butlast (wrap60 s) ! k"
      by (auto simp: in_set_conv_nth)
    from k have k': "Suc k < ?m" by (simp add: len)
    then have "60 \<le> length s - k * 60" by (rule ceil60_inner)
    moreover have "l = wrap60 s ! k" using k l by (simp add: nth_butlast)
    ultimately show ?thesis using k' nth_wrap60_len[of k s] by (simp add: len)
  qed
  have lst: "0 < length (last (wrap60 s)) \<and> length (last (wrap60 s)) \<le> 60" if "wrap60 s \<noteq> []"
  proof -
    from that have m: "0 < ?m" using len by (cases "wrap60 s") auto
    have "last (wrap60 s) = wrap60 s ! (?m - 1)" using that by (simp add: last_conv_nth len)
    moreover note ceil60_last[OF m]
    ultimately show ?thesis using m nth_wrap60_len[of "?m - 1" s] by (simp add: len)
  qed
  show ?thesis unfolding wrapped60_def using full lst by blast
qed

lemma wrap60_concat: "wrapped60 ls \<Longrightarrow> wrap60 (concat ls) = ls"
proof (induction ls)
  case Nil
  show ?case by (simp add: wrap60_alt)
next
  case (Cons l ls)
  show ?case
  proof (cases "ls = []")
    case True
    with Cons.prems have "0 < length l" "length l \<le> 60" by (simp_all add: wrapped60_def)
    then have "wrap60 l = [l]" by (subst wrap60_rec) (simp add: wrap60_alt)
    then show ?thesis using True by simp
  next
    case False
    with Cons.prems have l: "length l = 60" and w: "wrapped60 ls" by (simp_all add: wrapped60_def)
    from l have "l \<noteq> []" by auto
    then have "wrap60 (l @ concat ls) = l # wrap60 (concat ls)"
      using l by (subst wrap60_rec) simp
    then show ?thesis using Cons.IH[OF w] by simp
  qed
qed

lemma wrap60_full:
  assumes n: "length s = 60 * k"
  shows "length (wrap60 s) = k \<and> (\<forall>l\<in>set (wrap60 s). length l = 60)"
proof -
  have len: "length (wrap60 s) = k" by (simp add: length_wrap60 n)
  have "length l = 60" if "l \<in> set (wrap60 s)" for l
  proof -
    from that obtain i where i: "i < k" and l: "l = wrap60 s ! i"
      using len by (auto simp: in_set_conv_nth)
    from i have "60 \<le> length s - i * 60" unfolding n by (rule ceil60_exact_inner)
    then show ?thesis using nth_wrap60_len[of i s] i l len by simp
  qed
  with len show ?thesis by blast
qed

text \<open>
  Claim C6. Wrapping a sequence at width 60 loses nothing; every line but the last
  has exactly 60 characters and the last line is not empty and has at most 60; a
  sequence of length \<open>60 * k\<close> gives exactly \<open>k\<close> lines of 60 characters; and
  wrapping again what was wrapped gives the same lines, for the lines of
  \<open>wrap60\<close> and for any lines of that shape.
\<close>

theorem wrap60_line_structure:
  "concat (wrap60 s) = s \<and>
   (\<forall>l\<in>set (butlast (wrap60 s)). length l = 60) \<and>
   (wrap60 s \<noteq> [] \<longrightarrow> 0 < length (last (wrap60 s)) \<and> length (last (wrap60 s)) \<le> 60) \<and>
   (length s = 60 * k \<longrightarrow> length (wrap60 s) = k \<and> (\<forall>l\<in>set (wrap60 s). length l = 60)) \<and>
   wrap60 (concat (wrap60 s)) = wrap60 s \<and>
   (wrapped60 ls \<longrightarrow> wrap60 (concat ls) = ls)"
proof -
  have 1: "concat (wrap60 s) = s" by (rule concat_wrap60)
  have 2: "wrapped60 (wrap60 s)" by (rule wrapped60_wrap60)
  have 3: "length s = 60 * k \<longrightarrow> length (wrap60 s) = k \<and> (\<forall>l\<in>set (wrap60 s). length l = 60)"
    using wrap60_full[of s k] by blast
  have 4: "wrapped60 ls \<longrightarrow> wrap60 (concat ls) = ls"
    using wrap60_concat[of ls] by blast
  from 1 2 3 4 show ?thesis unfolding wrapped60_def by simp
qed

lemma two_lines_of_60:
  "length xs = 2 \<Longrightarrow> \<forall>l\<in>set xs. length l = 60 \<Longrightarrow> map length xs = [60, 60]"
  by (auto simp: numeral_2_eq_2 length_Suc_conv)

theorem wrap60_line_structure_witness:
  "length (replicate 120 CHR ''A'') = 60 * 2 \<and>
   map length (wrap60 (replicate 120 CHR ''A'')) = [60, 60] \<and>
   wrapped60 [replicate 60 CHR ''A'', ''ACGTA''] \<and>
   wrap60 (replicate 60 CHR ''A'' @ ''ACGTA'') = [replicate 60 CHR ''A'', ''ACGTA'']"
proof -
  let ?s = "replicate 120 CHR ''A''"
  let ?ls = "[replicate 60 CHR ''A'', ''ACGTA'']"
  have a: "length ?s = 60 * 2" by simp
  have w: "wrapped60 ?ls" by (simp add: wrapped60_def)
  note t = wrap60_line_structure[of ?s 2 ?ls]
  note t4 = t[THEN conjunct2, THEN conjunct2, THEN conjunct2, THEN conjunct1, rule_format, OF a]
  note t6 = t[THEN conjunct2, THEN conjunct2, THEN conjunct2, THEN conjunct2, THEN conjunct2,
              rule_format, OF w]
  have b: "map length (wrap60 ?s) = [60, 60]"
    using t4 by (intro two_lines_of_60) blast+
  have c: "wrap60 (replicate 60 CHR ''A'' @ ''ACGTA'') = ?ls"
    using t6 by simp
  from a b w c show ?thesis by (intro conjI)
qed

subsection \<open>What the extraction writes\<close>

lemma extract_sequences_char:
  "extract_sequences fasta ids =
     (map (\<lambda>(h, s). write_record h s) (filter (wanted ids) (takeWhile readable (fasta_iterator fasta))),
      if \<forall>r\<in>set (fasta_iterator fasta). readable r then None else Some IndexError)"
  by (simp add: extract_sequences_def extract_loop_char)

lemma takeWhile_all: "\<forall>r\<in>set xs. P r \<Longrightarrow> takeWhile P xs = xs"
  by (simp add: takeWhile_eq_all_conv)

lemma occurrences_in_wanted:
  "x \<in> ids \<Longrightarrow> occurrences_in x (filter (wanted ids) recs) = occurrences_in x recs"
  by (induction recs) (auto simp: occurrences_in_def wanted_def)

text \<open>
  Claim C3. The lines of every sequence file are some lines without marker followed
  by blocks, each a header line with the lines up to the next header line or the
  end of the file. For every such reading of the file, the parser yields exactly
  one pair per block, in order: the header line without marker and newline, and
  the lines of the block joined without their newlines. So the last block is
  yielded although no header line follows it, the lines before the first header
  line yield nothing, and there are as many pairs as header lines.
\<close>

theorem fasta_iterator_records:
  "(\<exists>pre blocks. file_lines fasta = pre @ concat (map block_lines blocks) \<and> well_formed pre blocks) \<and>
   (\<forall>pre blocks. file_lines fasta = pre @ concat (map block_lines blocks) \<and> well_formed pre blocks
       \<longrightarrow> fasta_iterator fasta = map block_record blocks) \<and>
   length (fasta_iterator fasta) = length (filter is_header (file_lines fasta))"
proof (intro conjI allI impI)
  show "\<exists>pre blocks. file_lines fasta = pre @ concat (map block_lines blocks) \<and> well_formed pre blocks"
    by (rule decompose_lines)
next
  fix pre blocks
  assume "file_lines fasta = pre @ concat (map block_lines blocks) \<and> well_formed pre blocks"
  then show "fasta_iterator fasta = map block_record blocks"
    using fasta_loop_blocks[of pre blocks None "[]"] by (simp add: fasta_iterator_def emit_def)
next
  show "length (fasta_iterator fasta) = length (filter is_header (file_lines fasta))"
    by (simp add: fasta_iterator_def length_fasta_loop)
qed

text \<open>
  The theorem at a file with a line before the first header, two records, and no
  newline at the end.
\<close>

theorem fasta_iterator_records_witness:
  "file_lines ''junk\<newline>>S1 desc\<newline>ACGT\<newline>AC\<newline>>S2\<newline>TT'' =
     [''junk\<newline>''] @ concat (map block_lines
        [(''>S1 desc\<newline>'', [''ACGT\<newline>'', ''AC\<newline>'']), (''>S2\<newline>'', [''TT''])]) \<and>
   fasta_iterator ''junk\<newline>>S1 desc\<newline>ACGT\<newline>AC\<newline>>S2\<newline>TT'' =
     [(''S1 desc'', ''ACGTAC''), (''S2'', ''TT'')] \<and>
   length (filter is_header (file_lines ''junk\<newline>>S1 desc\<newline>ACGT\<newline>AC\<newline>>S2\<newline>TT'')) = 2"
proof -
  let ?F = "''junk\<newline>>S1 desc\<newline>ACGT\<newline>AC\<newline>>S2\<newline>TT''"
  let ?pre = "[''junk\<newline>'']"
  let ?B = "[(''>S1 desc\<newline>'', [''ACGT\<newline>'', ''AC\<newline>'']), (''>S2\<newline>'', [''TT''])]"
  have h1: "file_lines ?F = ?pre @ concat (map block_lines ?B)" by code_simp
  have h2: "well_formed ?pre ?B" by code_simp
  note t = fasta_iterator_records[of ?F]
  from t h1 h2 have "fasta_iterator ?F = map block_record ?B" by blast
  moreover have "map block_record ?B = [(''S1 desc'', ''ACGTAC''), (''S2'', ''TT'')]" by code_simp
  ultimately have r: "fasta_iterator ?F = [(''S1 desc'', ''ACGTAC''), (''S2'', ''TT'')]" by simp
  from t have "length (fasta_iterator ?F) = length (filter is_header (file_lines ?F))" by blast
  with r have n: "length (filter is_header (file_lines ?F)) = 2" by simp
  from h1 r n show ?thesis by (intro conjI)
qed

subsection \<open>Reading the output file back\<close>

lemma rstrip_nl_clean: "NL \<notin> set l \<Longrightarrow> rstrip_nl l = l"
proof -
  assume "NL \<notin> set l"
  then have "dropWhile (\<lambda>c. c = NL) (rev l) = rev l"
    by (cases "rev l") auto
  then show ?thesis by (simp add: rstrip_nl_def)
qed

lemma rstrip_nl_snoc: "NL \<notin> set l \<Longrightarrow> rstrip_nl (l @ [NL]) = l"
  using rstrip_nl_clean[of l] by (simp add: rstrip_nl_def)

lemma lines_from_line:
  "NL \<notin> set l \<Longrightarrow> lines_from cur (l @ NL # rest) = (cur @ l @ [NL]) # lines_from [] rest"
  by (induction l arbitrary: cur) auto

lemma file_lines_concat:
  "\<forall>w\<in>set ws. \<exists>l. w = l @ [NL] \<and> NL \<notin> set l \<Longrightarrow> file_lines (concat ws) = ws"
proof (induction ws)
  case Nil
  show ?case by (simp add: file_lines_def)
next
  case (Cons w ws)
  then obtain l where w: "w = l @ [NL]" and l: "NL \<notin> set l" by auto
  from Cons have "lines_from [] (concat ws) = ws" by (simp add: file_lines_def)
  then show ?case
    using lines_from_line[OF l, of "[]" "concat ws"] by (simp add: file_lines_def w)
qed

lemma lines_from_stripped:
  "NL \<notin> set cur \<Longrightarrow> raw \<in> set (lines_from cur s) \<Longrightarrow> NL \<notin> set (rstrip_nl raw)"
proof (induction s arbitrary: cur)
  case Nil
  then show ?case by (auto simp: rstrip_nl_clean split: if_splits)
next
  case (Cons c cs)
  show ?case
  proof (cases "c = NL")
    case True
    with Cons.prems have "raw = cur @ [NL] \<or> raw \<in> set (lines_from [] cs)" by auto
    then show ?thesis
    proof
      assume "raw = cur @ [NL]"
      then show ?thesis using Cons.prems(1) by (simp add: rstrip_nl_snoc)
    next
      assume "raw \<in> set (lines_from [] cs)"
      then show ?thesis using Cons.IH[of "[]"] by simp
    qed
  next
    case False
    with Cons.prems have "raw \<in> set (lines_from (cur @ [c]) cs)" by simp
    moreover have "NL \<notin> set (cur @ [c])" using False Cons.prems(1) by auto
    ultimately show ?thesis by (rule Cons.IH[rotated])
  qed
qed

lemma fasta_loop_no_NL:
  assumes "\<forall>raw\<in>set ls. NL \<notin> set (rstrip_nl raw)"
    and "\<forall>h. hdr = Some h \<longrightarrow> NL \<notin> set h"
    and "\<forall>l\<in>set sl. NL \<notin> set l"
  shows "\<forall>r\<in>set (fasta_loop hdr sl ls). NL \<notin> set (fst r) \<and> NL \<notin> set (snd r)"
  using assms
proof (induction ls arbitrary: hdr sl)
  case Nil
  then show ?case by (auto simp: emit_def split: option.splits)
next
  case (Cons raw ls)
  have raw: "NL \<notin> set (rstrip_nl raw)" and ls: "\<forall>raw\<in>set ls. NL \<notin> set (rstrip_nl raw)"
    using Cons.prems(1) by auto
  have e: "\<forall>r\<in>set (emit hdr sl). NL \<notin> set (fst r) \<and> NL \<notin> set (snd r)"
    using Cons.prems(2,3) by (auto simp: emit_def split: option.splits)
  show ?case
  proof (cases "startswith_gt (rstrip_nl raw)")
    case True
    have "NL \<notin> set (drop 1 (rstrip_nl raw))"
      using raw by (meson in_set_dropD)
    then have "\<forall>r\<in>set (fasta_loop (Some (drop 1 (rstrip_nl raw))) [] ls).
        NL \<notin> set (fst r) \<and> NL \<notin> set (snd r)"
      using Cons.IH[OF ls, of "Some (drop 1 (rstrip_nl raw))" "[]"] by simp
    with e True show ?thesis by (auto simp: Let_def)
  next
    case False
    have "\<forall>l\<in>set (sl @ [rstrip_nl raw]). NL \<notin> set l" using raw Cons.prems(3) by auto
    then have "\<forall>r\<in>set (fasta_loop hdr (sl @ [rstrip_nl raw]) ls).
        NL \<notin> set (fst r) \<and> NL \<notin> set (snd r)"
      using Cons.IH[OF ls Cons.prems(2)] by blast
    with False show ?thesis by (simp add: Let_def)
  qed
qed

lemma fasta_iterator_no_NL:
  "r \<in> set (fasta_iterator fasta) \<Longrightarrow> NL \<notin> set (fst r) \<and> NL \<notin> set (snd r)"
proof -
  have "\<forall>raw\<in>set (file_lines fasta). NL \<notin> set (rstrip_nl raw)"
    using lines_from_stripped[of "[]"] by (simp add: file_lines_def)
  then have "\<forall>r\<in>set (fasta_loop None [] (file_lines fasta)). NL \<notin> set (fst r) \<and> NL \<notin> set (snd r)"
    by (rule fasta_loop_no_NL) simp_all
  then show "r \<in> set (fasta_iterator fasta) \<Longrightarrow> NL \<notin> set (fst r) \<and> NL \<notin> set (snd r)"
    by (simp add: fasta_iterator_def)
qed

lemma wrap60_subset: "l \<in> set (wrap60 s) \<Longrightarrow> set l \<subseteq> set s"
proof -
  assume "l \<in> set (wrap60 s)"
  then obtain k where "l = take 60 (drop (k * 60) s)" by (auto simp: wrap60_alt)
  then show ?thesis
    by (metis set_drop_subset set_take_subset subset_trans)
qed

lemma block_lines_record_block: "block_lines (record_block r) = write_record (fst r) (snd r)"
  by (simp add: block_lines_def record_block_def write_record_def)

lemma block_record_record_block:
  assumes "NL \<notin> set (fst r)" "NL \<notin> set (snd r)"
  shows "block_record (record_block r) = r"
proof -
  have h: "rstrip_nl (''>'' @ fst r @ [NL]) = ''>'' @ fst r"
    using rstrip_nl_snoc[of "''>'' @ fst r"] assms(1) by simp
  have "map rstrip_nl (map (\<lambda>chunk. chunk @ [NL]) (wrap60 (snd r))) = wrap60 (snd r)"
  proof -
    have "rstrip_nl (l @ [NL]) = l" if "l \<in> set (wrap60 (snd r))" for l
      using that wrap60_subset[of l "snd r"] assms(2) by (intro rstrip_nl_snoc) auto
    then show ?thesis by (simp add: map_idI)
  qed
  then have "concat (map rstrip_nl (map (\<lambda>chunk. chunk @ [NL]) (wrap60 (snd r)))) = snd r"
    by (simp only: concat_wrap60)
  with h show ?thesis by (simp add: block_record_def record_block_def)
qed

lemma well_formed_record_blocks:
  assumes "\<forall>r\<in>set kept. NL \<notin> set (fst r) \<and> NL \<notin> set (snd r) \<and> wraps_cleanly (snd r)"
  shows "well_formed [] (map record_block kept)"
proof -
  have "is_header (fst (record_block r)) \<and> (\<forall>l\<in>set (snd (record_block r)). \<not> is_header l)"
    if r: "r \<in> set kept" for r
  proof -
    from assms r have h: "NL \<notin> set (fst r)" and s: "NL \<notin> set (snd r)"
      and c: "wraps_cleanly (snd r)" by auto
    have "rstrip_nl (''>'' @ fst r @ [NL]) = ''>'' @ fst r"
      using rstrip_nl_snoc[of "''>'' @ fst r"] h by simp
    then have 1: "is_header (fst (record_block r))"
      by (simp add: is_header_def record_block_def startswith_gt_def)
    have "\<not> is_header (l @ [NL])" if "l \<in> set (wrap60 (snd r))" for l
    proof -
      have "rstrip_nl (l @ [NL]) = l"
        using that wrap60_subset[of l "snd r"] s by (intro rstrip_nl_snoc) auto
      then show ?thesis using c that by (simp add: is_header_def wraps_cleanly_def)
    qed
    then have 2: "\<forall>l\<in>set (snd (record_block r)). \<not> is_header l"
      by (auto simp: record_block_def)
    from 1 2 show ?thesis by blast
  qed
  then show ?thesis by (simp add: well_formed_def)
qed

lemma read_back:
  assumes "\<forall>r\<in>set kept. NL \<notin> set (fst r) \<and> NL \<notin> set (snd r) \<and> wraps_cleanly (snd r)"
  shows "output_records (map (\<lambda>(h, s). write_record h s) kept) = kept"
proof -
  let ?ws = "concat (map (\<lambda>(h, s). write_record h s) kept)"
  have ws: "?ws = concat (map block_lines (map record_block kept))"
    by (simp add: block_lines_record_block comp_def case_prod_unfold)
  have "\<forall>w\<in>set ?ws. \<exists>l. w = l @ [NL] \<and> NL \<notin> set l"
  proof
    fix w assume "w \<in> set ?ws"
    then obtain r where r: "r \<in> set kept" and w: "w \<in> set (write_record (fst r) (snd r))"
      by (auto simp: case_prod_unfold)
    from assms r have h: "NL \<notin> set (fst r)" and s: "NL \<notin> set (snd r)" by auto
    from w consider "w = (''>'' @ fst r) @ [NL]" | l where "l \<in> set (wrap60 (snd r))" "w = l @ [NL]"
      by (auto simp: write_record_def)
    then show "\<exists>l. w = l @ [NL] \<and> NL \<notin> set l"
    proof cases
      case 1
      moreover have "NL \<notin> set (''>'' @ fst r)" using h by simp
      ultimately show ?thesis by blast
    next
      case 2
      moreover have "NL \<notin> set l" using 2(1) wrap60_subset[of l "snd r"] s by auto
      ultimately show ?thesis by blast
    qed
  qed
  then have "file_lines (concat ?ws) = ?ws" by (rule file_lines_concat)
  then have "output_records (map (\<lambda>(h, s). write_record h s) kept) = fasta_loop None [] ?ws"
    by (simp add: output_records_def fasta_iterator_def file_text_def)
  also have "\<dots> = fasta_loop None [] ([] @ concat (map block_lines (map record_block kept)))"
    by (simp only: ws append_Nil)
  also have "\<dots> = emit None ([] @ map rstrip_nl []) @ map block_record (map record_block kept)"
    using well_formed_record_blocks[OF assms] by (rule fasta_loop_blocks)
  also have "\<dots> = map (\<lambda>r. block_record (record_block r)) kept"
    by (simp add: emit_def comp_def)
  also have "\<dots> = kept"
    using assms by (simp add: block_record_record_block map_idI)
  finally show ?thesis .
qed

text \<open>
  Claim C2, as the code has it. Take an input file in which the sequence of every
  wanted record wraps cleanly. Then the records of the output file are the wanted
  records of the input file, in order, up to the first record whose header cannot
  be read; so every record of the output file has a primary identifier in the
  wanted set. When the extraction ends without exception, every wanted identifier
  has as many records in the output file as it has among the records of the input
  file: once when it is the primary identifier of one input record, twice when of
  two.
\<close>

theorem extract_sequences_ids:
  assumes "\<forall>r\<in>set (fasta_iterator fasta). wanted ids r \<longrightarrow> wraps_cleanly (snd r)"
  shows "output_records (fst (extract_sequences fasta ids)) =
           filter (wanted ids) (takeWhile readable (fasta_iterator fasta)) \<and>
         (\<forall>r\<in>set (output_records (fst (extract_sequences fasta ids))).
            \<exists>pid\<in>ids. primary_id (fst r) = Inr pid) \<and>
         (snd (extract_sequences fasta ids) = None \<longrightarrow>
            (\<forall>x\<in>ids. occurrences_out x (fst (extract_sequences fasta ids)) =
                       occurrences_in x (fasta_iterator fasta)))"
proof -
  let ?recs = "fasta_iterator fasta"
  let ?kept = "filter (wanted ids) (takeWhile readable ?recs)"
  let ?out = "fst (extract_sequences fasta ids)"
  have out: "?out = map (\<lambda>(h, s). write_record h s) ?kept"
    by (simp add: extract_sequences_char)
  have "NL \<notin> set (fst r) \<and> NL \<notin> set (snd r) \<and> wraps_cleanly (snd r)" if "r \<in> set ?kept" for r
  proof -
    from that have r: "r \<in> set ?recs" and w: "wanted ids r"
      by (auto dest: set_takeWhileD)
    from r have "NL \<notin> set (fst r) \<and> NL \<notin> set (snd r)" by (rule fasta_iterator_no_NL)
    moreover from assms r w have "wraps_cleanly (snd r)" by blast
    ultimately show ?thesis by blast
  qed
  then have "output_records (map (\<lambda>(h, s). write_record h s) ?kept) = ?kept"
    by (intro read_back) blast
  with out have 1: "output_records ?out = ?kept" by simp
  have 2: "\<forall>r\<in>set (output_records ?out). \<exists>pid\<in>ids. primary_id (fst r) = Inr pid"
    unfolding 1 by (auto simp: wanted_def split: sum.splits)
  have 3: "occurrences_out x ?out = occurrences_in x ?recs"
    if e: "snd (extract_sequences fasta ids) = None" and x: "x \<in> ids" for x
  proof -
    from e have "\<forall>r\<in>set ?recs. readable r"
      by (simp add: extract_sequences_char split: if_splits)
    then have "takeWhile readable ?recs = ?recs" by (rule takeWhile_all)
    with 1 have "output_records ?out = filter (wanted ids) ?recs" by simp
    then show ?thesis using x by (simp only: occurrences_out_def occurrences_in_wanted)
  qed
  from 1 2 3 show ?thesis by blast
qed

theorem extract_sequences_ids_witness:
  "output_records
     (fst (extract_sequences ''>S1 d\<newline>AA\<newline>>S2\<newline>CC\<newline>>S3 x\<newline>GG\<newline>'' {''S1'', ''S3''})) =
     [(''S1 d'', ''AA''), (''S3 x'', ''GG'')] \<and>
   snd (extract_sequences ''>S1 d\<newline>AA\<newline>>S2\<newline>CC\<newline>>S3 x\<newline>GG\<newline>'' {''S1'', ''S3''}) = None \<and>
   occurrences_in ''S1'' (fasta_iterator ''>S1 d\<newline>AA\<newline>>S2\<newline>CC\<newline>>S3 x\<newline>GG\<newline>'') = 1 \<and>
   occurrences_out ''S1''
     (fst (extract_sequences ''>S1 d\<newline>AA\<newline>>S2\<newline>CC\<newline>>S3 x\<newline>GG\<newline>'' {''S1'', ''S3''})) = 1"
proof -
  let ?F = "''>S1 d\<newline>AA\<newline>>S2\<newline>CC\<newline>>S3 x\<newline>GG\<newline>''"
  let ?ids = "{''S1'', ''S3''}"
  have h: "\<forall>r\<in>set (fasta_iterator ?F). wanted ?ids r \<longrightarrow> wraps_cleanly (snd r)" by code_simp
  have e: "snd (extract_sequences ?F ?ids) = None" by code_simp
  have i: "occurrences_in ''S1'' (fasta_iterator ?F) = 1" by code_simp
  have m: "''S1'' \<in> ?ids" by simp
  have k: "filter (wanted ?ids) (takeWhile readable (fasta_iterator ?F)) =
           [(''S1 d'', ''AA''), (''S3 x'', ''GG'')]" by code_simp
  note t = extract_sequences_ids[OF h]
  from t k have r: "output_records (fst (extract_sequences ?F ?ids)) =
                    [(''S1 d'', ''AA''), (''S3 x'', ''GG'')]" by simp
  from t e m have "occurrences_out ''S1'' (fst (extract_sequences ?F ?ids)) =
                   occurrences_in ''S1'' (fasta_iterator ?F)" by blast
  with i have o: "occurrences_out ''S1'' (fst (extract_sequences ?F ?ids)) = 1" by simp
  from r e i o show ?thesis by (intro conjI)
qed

text \<open>
  Claim C2 as stated fails in three ways. Two input records with the same primary
  identifier give two records in the output file. A sequence with the marker at
  offset 60 is wrapped into a line that starts with the marker, so the output file
  has one record more than was written: a second record of the same identifier,
  or a record whose identifier is not in the wanted set. And a header without
  token ends the extraction before a wanted record that follows it.
\<close>

theorem extract_sequences_twice_counterexample:
  "''S1'' \<in> {''S1''} \<and>
   occurrences_in ''S1'' (fasta_iterator ''>S1 first\<newline>AA\<newline>>S1 second\<newline>CC\<newline>'') = 2 \<and>
   occurrences_out ''S1''
     (fst (extract_sequences ''>S1 first\<newline>AA\<newline>>S1 second\<newline>CC\<newline>'' {''S1''})) = 2 \<and>
   occurrences_in ''S1''
     (fasta_iterator (''>S1\<newline>'' @ replicate 60 CHR ''A'' @ ''>S1 x\<newline>'')) = 1 \<and>
   occurrences_out ''S1''
     (fst (extract_sequences (''>S1\<newline>'' @ replicate 60 CHR ''A'' @ ''>S1 x\<newline>'') {''S1''})) = 2 \<and>
   output_records
     (fst (extract_sequences (''>S1\<newline>'' @ replicate 60 CHR ''A'' @ ''>ZZ\<newline>'') {''S1''})) =
     [(''S1'', replicate 60 CHR ''A''), (''ZZ'', [])] \<and>
   ''ZZ'' \<notin> {''S1''} \<and>
   occurrences_in ''S1'' (fasta_iterator ''>\<newline>AA\<newline>>S1\<newline>CC\<newline>'') = 1 \<and>
   occurrences_out ''S1'' (fst (extract_sequences ''>\<newline>AA\<newline>>S1\<newline>CC\<newline>'' {''S1''})) = 0"
  by code_simp

text \<open>
  Claim C5, as the code has it. When the header of every record of the input file
  has a character that is no whitespace, the extraction ends without exception;
  it has written the wanted records in order and nothing for the others; and when
  no record is wanted the output file is empty.
\<close>

theorem extract_sequences_no_error:
  assumes "\<forall>r\<in>set (fasta_iterator fasta). readable r"
  shows "extract_sequences fasta ids =
           (map (\<lambda>(h, s). write_record h s) (filter (wanted ids) (fasta_iterator fasta)), None) \<and>
         ((\<forall>r\<in>set (fasta_iterator fasta). \<not> wanted ids r) \<longrightarrow>
            extract_sequences fasta ids = ([], None))"
proof -
  from assms have "takeWhile readable (fasta_iterator fasta) = fasta_iterator fasta"
    by (rule takeWhile_all)
  with assms have 1: "extract_sequences fasta ids =
      (map (\<lambda>(h, s). write_record h s) (filter (wanted ids) (fasta_iterator fasta)), None)"
    by (simp only: extract_sequences_char) simp
  have "filter (wanted ids) (fasta_iterator fasta) = []"
    if "\<forall>r\<in>set (fasta_iterator fasta). \<not> wanted ids r"
    using that by (simp add: filter_empty_conv)
  with 1 show ?thesis by simp
qed

theorem extract_sequences_no_error_witness:
  "fasta_iterator ''>S1 d\<newline>AA\<newline>>S2\<newline>CC\<newline>>S3 x\<newline>GG\<newline>'' =
     [(''S1 d'', ''AA''), (''S2'', ''CC''), (''S3 x'', ''GG'')] \<and>
   extract_sequences ''>S1 d\<newline>AA\<newline>>S2\<newline>CC\<newline>>S3 x\<newline>GG\<newline>'' {''S1'', ''S3''} =
     ([[''>S1 d\<newline>'', ''AA\<newline>''], [''>S3 x\<newline>'', ''GG\<newline>'']], None) \<and>
   extract_sequences ''>S1 d\<newline>AA\<newline>>S2\<newline>CC\<newline>>S3 x\<newline>GG\<newline>'' {''S9''} = ([], None)"
proof -
  let ?F = "''>S1 d\<newline>AA\<newline>>S2\<newline>CC\<newline>>S3 x\<newline>GG\<newline>''"
  have f: "fasta_iterator ?F = [(''S1 d'', ''AA''), (''S2'', ''CC''), (''S3 x'', ''GG'')]"
    by code_simp
  have h: "\<forall>r\<in>set (fasta_iterator ?F). readable r" by code_simp
  have n: "\<forall>r\<in>set (fasta_iterator ?F). \<not> wanted {''S9''} r" by code_simp
  have "extract_sequences ?F {''S1'', ''S3''} =
      (map (\<lambda>(h, s). write_record h s) (filter (wanted {''S1'', ''S3''}) (fasta_iterator ?F)), None)"
    using extract_sequences_no_error[OF h, of "{''S1'', ''S3''}"] by blast
  moreover have "map (\<lambda>(h, s). write_record h s) (filter (wanted {''S1'', ''S3''}) (fasta_iterator ?F)) =
      [[''>S1 d\<newline>'', ''AA\<newline>''], [''>S3 x\<newline>'', ''GG\<newline>'']]" by code_simp
  ultimately have a: "extract_sequences ?F {''S1'', ''S3''} =
      ([[''>S1 d\<newline>'', ''AA\<newline>''], [''>S3 x\<newline>'', ''GG\<newline>'']], None)" by simp
  have b: "extract_sequences ?F {''S9''} = ([], None)"
    using extract_sequences_no_error[OF h, of "{''S9''}"] n by blast
  from f a b show ?thesis by (intro conjI)
qed

text \<open>
  Claim C5 as stated includes records whose header is empty or only whitespace.
  For such a header \<open>header.split()\<close> is the empty list and taking its first
  element raises \<open>IndexError\<close>: the extraction stops there, with the records
  before it written.
\<close>

theorem extract_sequences_blank_header_counterexample:
  "fasta_iterator ''>S1\<newline>AC\<newline>> \<newline>GG\<newline>'' = [(''S1'', ''AC''), ('' '', ''GG'')] \<and>
   py_split '' '' = [] \<and>
   extract_sequences ''>S1\<newline>AC\<newline>> \<newline>GG\<newline>'' {''S1''} =
     ([[''>S1\<newline>'', ''AC\<newline>'']], Some IndexError) \<and>
   extract_sequences ''>\<newline>ACGT\<newline>'' {''S1''} = ([], Some IndexError)"
  by code_simp

text \<open>
  Claim C10. The output file has one entry per wanted record that was reached, in
  order, and the entry of a record with an empty sequence is its header line
  alone: no sequence line and no blank line follow it.
\<close>

theorem extract_empty_sequence:
  "length (fst (extract_sequences fasta ids)) =
     length (filter (wanted ids) (takeWhile readable (fasta_iterator fasta))) \<and>
   (\<forall>i<length (fst (extract_sequences fasta ids)).
      snd (filter (wanted ids) (takeWhile readable (fasta_iterator fasta)) ! i) = [] \<longrightarrow>
      fst (extract_sequences fasta ids) ! i =
        [''>'' @ fst (filter (wanted ids) (takeWhile readable (fasta_iterator fasta)) ! i) @ [NL]])"
  by (simp add: extract_sequences_char write_record_def wrap60_alt case_prod_unfold)

theorem extract_empty_sequence_witness:
  "fasta_iterator ''>S1 only header\<newline>>S2\<newline>AC\<newline>'' = [(''S1 only header'', []), (''S2'', ''AC'')] \<and>
   fst (extract_sequences ''>S1 only header\<newline>>S2\<newline>AC\<newline>'' {''S1''}) = [[''>S1 only header\<newline>'']]"
proof -
  let ?F = "''>S1 only header\<newline>>S2\<newline>AC\<newline>''"
  let ?out = "fst (extract_sequences ?F {''S1''})"
  have f: "fasta_iterator ?F = [(''S1 only header'', []), (''S2'', ''AC'')]" by code_simp
  have k: "filter (wanted {''S1''}) (takeWhile readable (fasta_iterator ?F)) = [(''S1 only header'', [])]"
    by code_simp
  note t = extract_empty_sequence[of ?F "{''S1''}"]
  from t k have len: "length ?out = 1" by simp
  from t have "0 < length ?out \<longrightarrow>
      snd (filter (wanted {''S1''}) (takeWhile readable (fasta_iterator ?F)) ! 0) = [] \<longrightarrow>
      ?out ! 0 = [''>'' @ fst (filter (wanted {''S1''}) (takeWhile readable (fasta_iterator ?F)) ! 0) @ [NL]]"
    by blast
  with len k have z: "?out ! 0 = [''>S1 only header\<newline>'']" by simp
  from len obtain b where "?out = [b]" by (auto simp: length_Suc_conv)
  with z have "?out = [[''>S1 only header\<newline>'']]" by simp
  with f show ?thesis by (intro conjI)
qed

section \<open>Properties of the lists and of the main program\<close>

lemma set_unique_from: "set (unique_from seen xs) = set xs - set seen"
  by (induction xs arbitrary: seen) auto

lemma distinct_unique_from: "distinct (unique_from seen xs)"
  by (induction xs arbitrary: seen) (auto simp: set_unique_from)

lemma set_unique: "set (unique xs) = set xs"
  by (simp add: unique_def set_unique_from)

lemma distinct_unique: "distinct (unique xs)"
  by (simp add: unique_def distinct_unique_from)

lemma float_ge_Fin: "float_ge v (Fin t) \<longleftrightarrow> (\<exists>x. v = Fin x \<and> t \<le> x) \<or> v = PosInf"
  by (cases v) (simp_all add: float_ge_def)

lemma float_le_Fin: "float_le v (Fin t) \<longleftrightarrow> (\<exists>x. v = Fin x \<and> x \<le> t) \<or> v = NegInf"
  by (cases v) simp_all

lemma filter_filter_imp: "(\<And>x. P x \<Longrightarrow> Q x) \<Longrightarrow> filter P (filter Q xs) = filter P xs"
  by (induction xs) auto

lemma list1_without_missing:
  "list1 (load_blast_table parse (filter (\<lambda>r. to_numeric parse (identity r) \<noteq> NaN) table)) =
   list1 (load_blast_table parse table)"
proof -
  have "load_blast_table parse (filter (\<lambda>r. to_numeric parse (identity r) \<noteq> NaN) table) =
        filter (\<lambda>r. identity r \<noteq> NaN) (load_blast_table parse table)"
    by (simp add: load_blast_table_def filter_map comp_def coerce_row_def)
  moreover have "filter (\<lambda>r. float_ge (identity r) IDENTITY_THRESHOLD) (filter (\<lambda>r. identity r \<noteq> NaN) df) =
        filter (\<lambda>r. float_ge (identity r) IDENTITY_THRESHOLD) df" for df :: "pyfloat blast_row list"
    by (rule filter_filter_imp) (auto simp: float_ge_def IDENTITY_THRESHOLD_def)
  ultimately show ?thesis by (simp add: list1_def)
qed

lemma list2_without_missing:
  "list2 (load_blast_table parse (filter (\<lambda>r. to_numeric parse (evalue r) \<noteq> NaN) table)) =
   list2 (load_blast_table parse table)"
proof -
  have "load_blast_table parse (filter (\<lambda>r. to_numeric parse (evalue r) \<noteq> NaN) table) =
        filter (\<lambda>r. evalue r \<noteq> NaN) (load_blast_table parse table)"
    by (simp add: load_blast_table_def filter_map comp_def coerce_row_def)
  moreover have "filter (\<lambda>r. float_le (evalue r) EVALUE_THRESHOLD) (filter (\<lambda>r. evalue r \<noteq> NaN) df) =
        filter (\<lambda>r. float_le (evalue r) EVALUE_THRESHOLD) df" for df :: "pyfloat blast_row list"
    by (rule filter_filter_imp) auto
  ultimately show ?thesis by (simp add: list2_def)
qed

text \<open>
  Claim C1. For the table that \<open>load_blast_table\<close> returns, List A has no
  duplicates and holds exactly the subject identifiers of the rows whose identity
  is a number at least 35 (or plus infinity), and List B has no duplicates and
  holds exactly the subject identifiers of the rows whose e-value is a number at
  most \<open>1e-7\<close> (or minus infinity). Rows whose coerced identity is missing count
  for nothing in List A, and rows whose coerced e-value is missing count for
  nothing in List B: the lists are the same without them. These lists are what
  \<open>make_lists\<close> writes to the two files and returns as sets.
\<close>

theorem make_lists_exact:
  assumes "df = load_blast_table parse table"
  shows "distinct (list1 df) \<and>
         set (list1 df) =
           {subject_ID r | r. r \<in> set df \<and> ((\<exists>x. identity r = Fin x \<and> 35 \<le> x) \<or> identity r = PosInf)} \<and>
         distinct (list2 df) \<and>
         set (list2 df) =
           {subject_ID r | r. r \<in> set df \<and> ((\<exists>x. evalue r = Fin x \<and> x \<le> 1 / 10 ^ 7) \<or> evalue r = NegInf)} \<and>
         list1 (load_blast_table parse (filter (\<lambda>r. to_numeric parse (identity r) \<noteq> NaN) table)) = list1 df \<and>
         list2 (load_blast_table parse (filter (\<lambda>r. to_numeric parse (evalue r) \<noteq> NaN) table)) = list2 df \<and>
         make_lists df =
           ([(''list1_identity_ge35.txt'', Text (join [NL] (list1 df) @ [NL])),
             (''list2_evalue_le1e-7.txt'', Text (join [NL] (list2 df) @ [NL]))],
            set (list1 df), set (list2 df))"
proof -
  have 1: "distinct (list1 df)" by (simp add: list1_def distinct_unique)
  have 2: "set (list1 df) =
      {subject_ID r | r. r \<in> set df \<and> ((\<exists>x. identity r = Fin x \<and> 35 \<le> x) \<or> identity r = PosInf)}"
    by (auto simp: list1_def set_unique IDENTITY_THRESHOLD_def float_ge_Fin)
  have 3: "distinct (list2 df)" by (simp add: list2_def distinct_unique)
  have 4: "set (list2 df) =
      {subject_ID r | r. r \<in> set df \<and> ((\<exists>x. evalue r = Fin x \<and> x \<le> 1 / 10 ^ 7) \<or> evalue r = NegInf)}"
    by (auto simp: list2_def set_unique EVALUE_THRESHOLD_def float_le_Fin)
  have 5: "list1 (load_blast_table parse (filter (\<lambda>r. to_numeric parse (identity r) \<noteq> NaN) table)) = list1 df"
    unfolding assms by (rule list1_without_missing)
  have 6: "list2 (load_blast_table parse (filter (\<lambda>r. to_numeric parse (evalue r) \<noteq> NaN) table)) = list2 df"
    unfolding assms by (rule list2_without_missing)
  have 7: "make_lists df =
           ([(''list1_identity_ge35.txt'', Text (join [NL] (list1 df) @ [NL])),
             (''list2_evalue_le1e-7.txt'', Text (join [NL] (list2 df) @ [NL]))],
            set (list1 df), set (list2 df))"
    by (simp add: make_lists_def)
  from 1 2 3 4 5 6 7 show ?thesis by (intro conjI)
qed

theorem make_lists_exact_witness:
  "list1 (load_blast_table (\<lambda>s. None) example_table) = [''S1'', ''S3''] \<and>
   list2 (load_blast_table (\<lambda>s. None) example_table) = [''S1'', ''S2''] \<and>
   list1 (load_blast_table (\<lambda>s. None) (take 3 example_table)) = [''S1'', ''S3''] \<and>
   list2 (load_blast_table (\<lambda>s. None) (take 3 example_table)) = [''S1'', ''S2''] \<and>
   make_lists (load_blast_table (\<lambda>s. None) example_table) =
     ([(''list1_identity_ge35.txt'', Text ''S1\<newline>S3\<newline>''),
       (''list2_evalue_le1e-7.txt'', Text ''S1\<newline>S2\<newline>'')],
      {''S1'', ''S3''}, {''S1'', ''S2''})"
proof -
  let ?p = "\<lambda>s :: string. None :: pyfloat option"
  let ?df = "load_blast_table ?p example_table"
  note t = make_lists_exact[of ?df ?p example_table, OF refl]
  have a: "list1 ?df = [''S1'', ''S3'']" by code_simp
  have b: "list2 ?df = [''S1'', ''S2'']" by code_simp
  have fb: "filter (\<lambda>r. to_numeric ?p (evalue r) \<noteq> NaN) example_table = take 3 example_table"
    by code_simp
  from t have "list2 (load_blast_table ?p (filter (\<lambda>r. to_numeric ?p (evalue r) \<noteq> NaN) example_table)) =
               list2 ?df" by blast
  with fb b have d: "list2 (load_blast_table ?p (take 3 example_table)) = [''S1'', ''S2'']" by simp
  have c: "list1 (load_blast_table ?p (take 3 example_table)) = [''S1'', ''S3'']" by code_simp
  from t have "make_lists ?df =
           ([(''list1_identity_ge35.txt'', Text (join [NL] (list1 ?df) @ [NL])),
             (''list2_evalue_le1e-7.txt'', Text (join [NL] (list2 ?df) @ [NL]))],
            set (list1 ?df), set (list2 ?df))" by blast
  then have e: "make_lists ?df =
     ([(''list1_identity_ge35.txt'', Text ''S1\<newline>S3\<newline>''),
       (''list2_evalue_le1e-7.txt'', Text ''S1\<newline>S2\<newline>'')],
      {''S1'', ''S3''}, {''S1'', ''S2''})"
    unfolding a b by simp
  from a b c d e show ?thesis by (intro conjI)
qed

text \<open>
  Claim C9. When a list is empty its file is still written, and its content is one
  newline.
\<close>

theorem make_lists_empty_list_file:
  "(list1 df = [] \<longrightarrow>
      map_of (fst (make_lists df)) ''list1_identity_ge35.txt'' = Some (Text [NL])) \<and>
   (list2 df = [] \<longrightarrow>
      map_of (fst (make_lists df)) ''list2_evalue_le1e-7.txt'' = Some (Text [NL]))"
  by (simp add: make_lists_def)

theorem make_lists_empty_list_file_witness:
  "list1 (load_blast_table (\<lambda>s. None) [example_table ! 1]) = [] \<and>
   map_of (fst (make_lists (load_blast_table (\<lambda>s. None) [example_table ! 1])))
     ''list1_identity_ge35.txt'' = Some (Text ''\<newline>'') \<and>
   list2 (load_blast_table (\<lambda>s. None) [example_table ! 2]) = [] \<and>
   map_of (fst (make_lists (load_blast_table (\<lambda>s. None) [example_table ! 2])))
     ''list2_evalue_le1e-7.txt'' = Some (Text ''\<newline>'')"
proof -
  let ?p = "\<lambda>s :: string. None :: pyfloat option"
  have a: "list1 (load_blast_table ?p [example_table ! 1]) = []" by code_simp
  have b: "list2 (load_blast_table ?p [example_table ! 2]) = []" by code_simp
  from a make_lists_empty_list_file[of "load_blast_table ?p [example_table ! 1]"]
  have c: "map_of (fst (make_lists (load_blast_table ?p [example_table ! 1])))
     ''list1_identity_ge35.txt'' = Some (Text ''\<newline>'')" by blast
  from b make_lists_empty_list_file[of "load_blast_table ?p [example_table ! 2]"]
  have d: "map_of (fst (make_lists (load_blast_table ?p [example_table ! 2])))
     ''list2_evalue_le1e-7.txt'' = Some (Text ''\<newline>'')" by blast
  from a c b d show ?thesis by (intro conjI)
qed

text \<open>
  Claim C7. When List A and List B share no identifier, the run prints the notice
  last and ends with exit status 0, and the files of the run are the two list
  files only.
\<close>

theorem main_no_shared_hits:
  assumes "set (list1 (load_blast_table parse table)) \<inter> set (list2 (load_blast_table parse table)) = {}"
  shows "files (main parse table fasta) = fst (make_lists (load_blast_table parse table)) \<and>
         map fst (files (main parse table fasta)) =
           [''list1_identity_ge35.txt'', ''list2_evalue_le1e-7.txt''] \<and>
         stdout (main parse table fasta) =
           compare_lists (set (list1 (load_blast_table parse table)))
             (set (list2 (load_blast_table parse table))) @ [NoSharedHits] \<and>
         outcome (main parse table fasta) = Exit 0"
  using assms by (simp add: main_def make_lists_def Let_def)

theorem main_no_shared_hits_witness:
  "list1 (load_blast_table (\<lambda>s. None) (drop 1 example_table)) = [''S3'', ''S1''] \<and>
   list2 (load_blast_table (\<lambda>s. None) (drop 1 example_table)) = [''S2''] \<and>
   map fst (files (main (\<lambda>s. None) (drop 1 example_table) ''>S1\<newline>ACGT\<newline>'')) =
     [''list1_identity_ge35.txt'', ''list2_evalue_le1e-7.txt''] \<and>
   stdout (main (\<lambda>s. None) (drop 1 example_table) ''>S1\<newline>ACGT\<newline>'') =
     [ComparisonHeader, OnlyA 2, OnlyB 1, Both 0, MoreA, NoSharedHits] \<and>
   outcome (main (\<lambda>s. None) (drop 1 example_table) ''>S1\<newline>ACGT\<newline>'') = Exit 0"
proof -
  let ?p = "\<lambda>s :: string. None :: pyfloat option"
  let ?t = "drop 1 example_table"
  let ?f = "''>S1\<newline>ACGT\<newline>''"
  have a: "list1 (load_blast_table ?p ?t) = [''S3'', ''S1'']" by code_simp
  have b: "list2 (load_blast_table ?p ?t) = [''S2'']" by code_simp
  have h: "set (list1 (load_blast_table ?p ?t)) \<inter> set (list2 (load_blast_table ?p ?t)) = {}"
    unfolding a b by simp
  note t = main_no_shared_hits[OF h, of ?f]
  from t have c: "map fst (files (main ?p ?t ?f)) =
     [''list1_identity_ge35.txt'', ''list2_evalue_le1e-7.txt'']" by blast
  have "compare_lists (set (list1 (load_blast_table ?p ?t))) (set (list2 (load_blast_table ?p ?t))) =
        [ComparisonHeader, OnlyA 2, OnlyB 1, Both 0, MoreA]"
    unfolding a b by (simp add: compare_lists_def)
  with t have d: "stdout (main ?p ?t ?f) =
     [ComparisonHeader, OnlyA 2, OnlyB 1, Both 0, MoreA, NoSharedHits]" by simp
  from t have e: "outcome (main ?p ?t ?f) = Exit 0" by blast
  from a b c d e show ?thesis by (intro conjI)
qed

end
